theory Spec2Isabelle
  imports Main
begin

section \<open>Data model\<close>

text \<open>
  The exceptions the program can meet. \<open>AttributeError\<close> is what \<open>m.groups()\<close> raises
  when \<open>m\<close> is \<open>None\<close>, \<open>TypeError\<close> what the match of a text pattern against a line of
  bytes raises, \<open>KeyError\<close> a failed dictionary lookup, \<open>ValueError\<close> a \<open>list.remove\<close> of
  an absent value or a file name with a NUL character. \<open>FileNotFoundError\<close> and \<open>OSError\<close>
  come from opening a file. The last three are exceptions of the HTTP library; the
  source names only \<open>ConnectTimeout\<close>.
\<close>

datatype py_exn =
    AttributeError
  | TypeError
  | KeyError
  | ValueError
  | FileNotFoundError
  | OSError
  | ConnectTimeout
  | ReadTimeout
  | ConnectionError

text \<open>
  An HTTP response, as far as the program reads it: the flag \<open>ok\<close>, the body \<open>content\<close>,
  the \<open>encoding\<close> that the library derives from the headers, and the lines that
  \<open>iter_lines\<close> yields. With \<open>decode_unicode=True\<close> the lines are text when the response
  has an encoding and stay bytes when it has none.
\<close>

record response =
  ok :: bool
  content :: string
  encoding :: "string option"
  iter_lines :: "string list"

text \<open>
  The world outside the program is an oracle. A request is answered with a response or
  raises; the answer may depend on the moment of the request, counted as the number of
  operations the program has performed so far. Proxies and credentials are fixed for a
  run and are part of the oracle. \<open>zipfile_open\<close> is the exception, if any, that the
  file system answers when an archive of that name is opened for appending: a name with
  a directory that is missing, a name that is too long, a name with a NUL character.
\<close>

record environment =
  requests_head :: "nat \<Rightarrow> string \<Rightarrow> py_exn + response"
  requests_get :: "nat \<Rightarrow> string \<Rightarrow> py_exn + response"
  zipfile_open :: "string \<Rightarrow> py_exn option"

text \<open>The three places where the loop body calls \<open>todo.remove(ip)\<close>.\<close>

datatype removal = AlreadyDone | NotEspEasy | Retrieved

text \<open>
  The operations of a run, in the order the program performs them: the GET of the lease
  feed, \<open>os.path.exists\<close> of an archive, the HEAD request to an address, the GET of a file
  of an address, \<open>todo.remove\<close> of an address and \<open>time.sleep\<close>.
\<close>

datatype event =
    GetLeases string
  | Exists string
  | Head string
  | Get string string
  | Remove string removal
  | Sleep nat

text \<open>
  The archives on disk map a file name to the entries of the archive, each a pair of
  entry name and content, in the order written.
\<close>

type_synonym archives = "string \<rightharpoonup> (string \<times> string) list"

record state =
  todo :: "string list"
  fs :: archives
  trace :: "event list"

datatype outcome = Continue state | Raised py_exn state

datatype result = Return int state | Uncaught py_exn state

section \<open>The lease parser\<close>

definition digit :: "char \<Rightarrow> bool" where
  "digit c = (c \<in> set ''0123456789'')"

definition mac_char :: "char \<Rightarrow> bool" where
  "mac_char c = (c \<in> set ''abcdef0123456789:'')"

definition ip_char :: "char \<Rightarrow> bool" where
  "ip_char c = (c \<in> set ''0123456789.'')"

definition non_space :: "char \<Rightarrow> bool" where
  "non_space c = (c \<noteq> CHR '' '')"

text \<open>
  The regular expression
  \<^verbatim>\<open>^[0-9]{10} [a-f0-9:]{17} ([0-9.]{7,15}) ([^ ]+) \*$\<close>
  matched at the start of a line; the result is the pair of groups. Every repeated class
  is followed by a space, which the class excludes, so a field is the longest run of its
  class. Without the multi-line flag, \<^verbatim>\<open>$\<close> matches at the end of the string and before
  a line feed that ends the string.
\<close>

definition regex_dnsmasq_leases :: "string \<Rightarrow> (string \<times> string) option" where
  "regex_dnsmasq_leases line =
     (let stamp = take 10 line; r1 = drop 10 line;
          mac = take 17 (drop 1 r1); r2 = drop 18 r1;
          ip = takeWhile ip_char (drop 1 r2); r3 = dropWhile ip_char (drop 1 r2);
          hostname = takeWhile non_space (drop 1 r3); r4 = dropWhile non_space (drop 1 r3)
      in if length stamp = 10 \<and> list_all digit stamp
            \<and> take 1 r1 = '' ''
            \<and> length mac = 17 \<and> list_all mac_char mac
            \<and> take 1 r2 = '' ''
            \<and> 7 \<le> length ip \<and> length ip \<le> 15
            \<and> take 1 r3 = '' ''
            \<and> hostname \<noteq> []
            \<and> (r4 = '' *'' \<or> r4 = [CHR '' '', CHR ''*'', CHR 0x0A])
         then Some (ip, hostname) else None)"

definition startswith :: "string \<Rightarrow> string \<Rightarrow> bool" where
  "startswith s p = (take (length p) s = p)"

text \<open>
  The loop over the lines, with the list \<open>ips_hostnames\<close> as accumulator. \<open>text\<close> says
  whether the lines are text; the pattern is a text pattern, and its match against a line
  of bytes raises.
\<close>

fun leases_loop :: "bool \<Rightarrow> string list \<Rightarrow> (string \<times> string) list \<Rightarrow> py_exn + (string \<times> string) list" where
  "leases_loop text [] ips_hostnames = Inr ips_hostnames"
| "leases_loop text (line # rest) ips_hostnames =
     (if \<not> text then Inl TypeError
      else (case regex_dnsmasq_leases line of
              None \<Rightarrow> Inl AttributeError
            | Some (ip, hostname) \<Rightarrow>
                if startswith hostname ''ESP-''
                then leases_loop text rest (ips_hostnames @ [(ip, hostname)])
                else leases_loop text rest ips_hostnames))"

definition get_ips_from_leases_live :: "environment \<Rightarrow> string \<Rightarrow> py_exn + (string \<times> string) list" where
  "get_ips_from_leases_live net uri_leases =
     (case requests_get net 0 uri_leases of
        Inl e \<Rightarrow> Inl e
      | Inr req \<Rightarrow>
          if ok req then leases_loop (encoding req \<noteq> None) (iter_lines req) [] else Inr [])"

section \<open>The scheduling loop\<close>

text \<open>The manifest.\<close>

definition DOWNLOAD_FILES :: "string list" where
  "DOWNLOAD_FILES = [''json'', ''config.dat'', ''security.dat'', ''rules1.txt'', ''rules2.txt'',
                     ''rules3.txt'', ''rules4.txt'', ''esp.css'', ''notification.dat'']"

text \<open>\<open>ip.replace('.', '-')\<close> and the archive's file name.\<close>

definition replace_dots :: "string \<Rightarrow> string" where
  "replace_dots ip = map (\<lambda>c. if c = CHR ''.'' then CHR ''-'' else c) ip"

definition archive_filename :: "string \<Rightarrow> string \<Rightarrow> string" where
  "archive_filename ip hostname = replace_dots ip @ ''_'' @ hostname @ ''.zip''"

definition json_url :: "string \<Rightarrow> string" where
  "json_url ip = ''http://'' @ ip @ ''/json''"

definition file_url :: "string \<Rightarrow> string \<Rightarrow> string" where
  "file_url ip filename = ''http://'' @ ip @ ''/'' @ filename"

definition log_event :: "event \<Rightarrow> state \<Rightarrow> state" where
  "log_event e s = s\<lparr>trace := trace s @ [e]\<rparr>"

text \<open>
  \<open>todo.remove(ip)\<close> deletes the first occurrence of \<open>ip\<close> and raises \<open>ValueError\<close>
  when there is none.
\<close>

definition todo_remove :: "string \<Rightarrow> removal \<Rightarrow> state \<Rightarrow> outcome" where
  "todo_remove ip site s =
     (if ip \<in> set (todo s)
      then Continue (log_event (Remove ip site) (s\<lparr>todo := remove1 ip (todo s)\<rparr>))
      else Raised ValueError s)"

text \<open>
  Opening an archive in append mode raises when the file system refuses the name;
  otherwise it creates the archive when it is missing and keeps its entries when it is
  there. \<open>writestr\<close> adds one entry at the end.
\<close>

definition archive_opened :: "string \<Rightarrow> state \<Rightarrow> state" where
  "archive_opened name s =
     (case fs s name of None \<Rightarrow> s\<lparr>fs := (fs s)(name \<mapsto> [])\<rparr> | Some _ \<Rightarrow> s)"

definition zip_open_append :: "environment \<Rightarrow> string \<Rightarrow> state \<Rightarrow> py_exn + state" where
  "zip_open_append net name s =
     (case zipfile_open net name of
        Some e \<Rightarrow> Inl e
      | None \<Rightarrow> Inr (archive_opened name s))"

definition zf_writestr :: "string \<Rightarrow> string \<Rightarrow> string \<Rightarrow> state \<Rightarrow> state" where
  "zf_writestr name filename data s =
     s\<lparr>fs := (fs s)(name \<mapsto> (case fs s name of None \<Rightarrow> [] | Some es \<Rightarrow> es) @ [(filename, data)])\<rparr>"

text \<open>
  The loop over the manifest inside the \<open>with\<close> block. An exception of a GET leaves the
  block; the archive keeps the entries written so far. Writing an entry and closing the
  archive are taken to succeed.
\<close>

fun download_files :: "environment \<Rightarrow> string \<Rightarrow> string \<Rightarrow> string list \<Rightarrow> state \<Rightarrow> outcome" where
  "download_files net ip name [] s = Continue s"
| "download_files net ip name (filename # rest) s =
     (let url = file_url ip filename in
      case requests_get net (length (trace s)) url of
        Inl e \<Rightarrow> Raised e (log_event (Get ip filename) s)
      | Inr r \<Rightarrow> download_files net ip name rest
                 (zf_writestr name filename (content r) (log_event (Get ip filename) s)))"

text \<open>The body of the \<open>for\<close> loop, for one address of the queue.\<close>

definition process_target :: "environment \<Rightarrow> (string \<rightharpoonup> string) \<Rightarrow> string \<Rightarrow> state \<Rightarrow> outcome" where
  "process_target net ip2hostname ip s =
     (case ip2hostname ip of
        None \<Rightarrow> Raised KeyError s
      | Some hostname \<Rightarrow>
          let name = archive_filename ip hostname;
              s1 = log_event (Exists name) s
          in if fs s1 name \<noteq> None then todo_remove ip AlreadyDone s1
             else
               let url = json_url ip;
                   s2 = log_event (Head ip) s1
               in (case requests_head net (length (trace s1)) url of
                     Inl e \<Rightarrow> if e = ConnectTimeout then Continue s2 else Raised e s2
                   | Inr r \<Rightarrow>
                       if \<not> ok r then todo_remove ip NotEspEasy s2
                       else (case zip_open_append net name s2 of
                               Inl e \<Rightarrow> Raised e s2
                             | Inr zf \<Rightarrow>
                                 (case download_files net ip name DOWNLOAD_FILES zf of
                                    Raised e s3 \<Rightarrow> Raised e s3
                                  | Continue s3 \<Rightarrow> todo_remove ip Retrieved s3))))"

lemma todo_remove_length:
  "todo_remove ip site s = Continue s' \<Longrightarrow> length (todo s') \<le> length (todo s)"
  by (auto simp: todo_remove_def log_event_def length_remove1 split: if_splits)

lemma download_files_todo:
  "download_files net ip name fs0 s = Continue s' \<Longrightarrow> todo s' = todo s"
  by (induction fs0 arbitrary: s)
     (auto simp: Let_def log_event_def zf_writestr_def split: sum.splits)

lemma process_target_length:
  "process_target net h ip s = Continue s' \<Longrightarrow> length (todo s') \<le> length (todo s)"
  by (auto simp: process_target_def Let_def log_event_def zip_open_append_def archive_opened_def
           split: option.splits if_splits sum.splits outcome.splits
           dest!: todo_remove_length download_files_todo)

text \<open>
  \<open>for ip in todo\<close>: the list iterator keeps an index into the list itself, reads the
  element at the index as long as the index is below the current length, and advances by
  one, whatever the body did to the list.
\<close>

function for_ip_in_todo :: "environment \<Rightarrow> (string \<rightharpoonup> string) \<Rightarrow> nat \<Rightarrow> state \<Rightarrow> outcome" where
  "for_ip_in_todo net ip2hostname i s =
     (if i < length (todo s)
      then (case process_target net ip2hostname (todo s ! i) s of
              Raised e s' \<Rightarrow> Raised e s'
            | Continue s' \<Rightarrow> for_ip_in_todo net ip2hostname (Suc i) s')
      else Continue s)"
  by pat_completeness auto
termination
proof (relation "measure (\<lambda>(net, h, i, s). length (todo s) - i)")
  show "wf (measure (\<lambda>(net, h, i, s). length (todo s) - i))" by simp
next
  fix net :: environment and ip2hostname :: "string \<rightharpoonup> string" and i s s'
  assume "i < length (todo s)"
    and "process_target net ip2hostname (todo s ! i) s = Continue s'"
  then show "((net, ip2hostname, Suc i, s'), (net, ip2hostname, i, s))
              \<in> measure (\<lambda>(net, h, i, s). length (todo s) - i)"
    using process_target_length [of net ip2hostname "todo s ! i" s s'] by simp
qed

declare for_ip_in_todo.simps [simp del]

text \<open>
  \<open>while len(todo) > 0\<close>: one pass over the queue, then \<open>time.sleep(15)\<close>. The loop need
  not end, so the result is optional.
\<close>

partial_function (option) while_todo :: "environment \<Rightarrow> (string \<rightharpoonup> string) \<Rightarrow> state \<Rightarrow> result option" where
  "while_todo net ip2hostname s =
     (if length (todo s) > 0
      then (case for_ip_in_todo net ip2hostname 0 s of
              Raised e s' \<Rightarrow> Some (Uncaught e s')
            | Continue s' \<Rightarrow> while_todo net ip2hostname (log_event (Sleep 15) s'))
      else Some (Return 0 s))"

text \<open>
  The first \<open>n\<close> passes of the same loop (fewer when the loop ends before): the state a
  run has reached by then, also for a run that never ends.
\<close>

fun passes :: "nat \<Rightarrow> environment \<Rightarrow> (string \<rightharpoonup> string) \<Rightarrow> state \<Rightarrow> outcome" where
  "passes 0 net ip2hostname s = Continue s"
| "passes (Suc n) net ip2hostname s =
     (if length (todo s) > 0
      then (case for_ip_in_todo net ip2hostname 0 s of
              Raised e s' \<Rightarrow> Raised e s'
            | Continue s' \<Rightarrow> passes n net ip2hostname (log_event (Sleep 15) s'))
      else Continue s)"

fun outcome_state :: "outcome \<Rightarrow> state" where
  "outcome_state (Continue s) = s"
| "outcome_state (Raised e s) = s"

fun result_state :: "result \<Rightarrow> state" where
  "result_state (Return rc s) = s"
| "result_state (Uncaught e s) = s"

text \<open>
  \<open>main\<close>, from the request of the lease feed on. \<open>dict(ips_hostnames)\<close> keeps the last
  identifier of an address. The configuration is read before: its \<open>uri_leases\<close> is the
  parameter, its proxies and credentials belong to the environment. The calls of \<open>logging\<close>
  change nothing and are left out.
\<close>

definition main :: "environment \<Rightarrow> string \<Rightarrow> archives \<Rightarrow> result option" where
  "main net uri_leases disk =
     (let s0 = \<lparr>todo = [], fs = disk, trace = [GetLeases uri_leases]\<rparr> in
      case get_ips_from_leases_live net uri_leases of
        Inl e \<Rightarrow> Some (Uncaught e s0)
      | Inr ips_hostnames \<Rightarrow>
          while_todo net (map_of (rev ips_hostnames)) (s0\<lparr>todo := map fst ips_hostnames\<rparr>))"

section \<open>Observing a run\<close>

text \<open>An HTTP request to an address: its HEAD or the GET of one of its files.\<close>

fun http_to :: "string \<Rightarrow> event \<Rightarrow> bool" where
  "http_to ip (Head ip') = (ip' = ip)"
| "http_to ip (Get ip' filename) = (ip' = ip)"
| "http_to ip e = False"

text \<open>The removals of an address from the queue that a trace records.\<close>

fun is_removal :: "string \<Rightarrow> event \<Rightarrow> bool" where
  "is_removal ip (Remove ip' site) = (ip' = ip)"
| "is_removal ip e = False"

definition removals :: "string \<Rightarrow> event list \<Rightarrow> nat" where
  "removals ip tr = length (filter (is_removal ip) tr)"

text \<open>
  A loop that has ended within \<open>n\<close> passes: by \<open>return 0\<close> with an empty queue, or by
  an exception that nothing catches.
\<close>

definition ended :: "nat \<Rightarrow> environment \<Rightarrow> (string \<rightharpoonup> string) \<Rightarrow> state \<Rightarrow> result \<Rightarrow> bool" where
  "ended n net h s r =
     (case r of Return rc s' \<Rightarrow> rc = 0 \<and> todo s' = [] \<and> passes n net h s = Continue s'
              | Uncaught e s' \<Rightarrow> passes n net h s = Raised e s')"

text \<open>
  What one run of the loop body for \<open>ip\<close> can do, whatever the network answers: it
  keeps every archive, sends requests to \<open>ip\<close> only, and either leaves the queue as it
  is or removes \<open>ip\<close> once, as its last operation.
\<close>

definition body_effect :: "string \<Rightarrow> state \<Rightarrow> state \<Rightarrow> bool" where
  "body_effect ip s s' =
     (\<exists>pre. (\<forall>e\<in>set pre. (\<forall>a. is_removal a e = False) \<and> (\<forall>a. http_to a e \<longrightarrow> a = ip))
         \<and> (\<forall>n. fs s n \<noteq> None \<longrightarrow> fs s' n \<noteq> None)
         \<and> ((todo s' = todo s \<and> trace s' = trace s @ pre)
              \<or> (ip \<in> set (todo s) \<and> todo s' = remove1 ip (todo s)
                  \<and> (\<exists>site. trace s' = trace s @ pre @ [Remove ip site]))))"

text \<open>
  The three conditions under which the loop body removes an address from the queue, each
  read off the state and the network at the moment the body starts: the archive is on
  disk; the archive is missing and the HEAD request is answered with a response that is
  not \<open>ok\<close>; the archive is missing, the HEAD request is answered \<open>ok\<close>, the archive
  opens and every GET of the manifest returns.
\<close>

definition archive_exists :: "(string \<rightharpoonup> string) \<Rightarrow> string \<Rightarrow> state \<Rightarrow> bool" where
  "archive_exists h ip s =
     (case h ip of None \<Rightarrow> False | Some hn \<Rightarrow> fs s (archive_filename ip hn) \<noteq> None)"

definition liveness_fails :: "environment \<Rightarrow> (string \<rightharpoonup> string) \<Rightarrow> string \<Rightarrow> state \<Rightarrow> bool" where
  "liveness_fails net h ip s =
     (case h ip of None \<Rightarrow> False
      | Some hn \<Rightarrow> fs s (archive_filename ip hn) = None \<and>
          (case requests_head net (Suc (length (trace s))) (json_url ip) of
             Inl e \<Rightarrow> False | Inr r \<Rightarrow> \<not> ok r))"

definition retrieval_completes :: "environment \<Rightarrow> (string \<rightharpoonup> string) \<Rightarrow> string \<Rightarrow> state \<Rightarrow> bool" where
  "retrieval_completes net h ip s =
     (case h ip of None \<Rightarrow> False
      | Some hn \<Rightarrow> fs s (archive_filename ip hn) = None \<and>
          (case requests_head net (Suc (length (trace s))) (json_url ip) of
             Inl e \<Rightarrow> False
           | Inr r \<Rightarrow> ok r \<and> zipfile_open net (archive_filename ip hn) = None \<and>
               (case download_files net ip (archive_filename ip hn) DOWNLOAD_FILES
                       (archive_opened (archive_filename ip hn)
                          (log_event (Head ip) (log_event (Exists (archive_filename ip hn)) s))) of
                  Continue s3 \<Rightarrow> True | Raised e s3 \<Rightarrow> False)))"

text \<open>
  Two relations between a state and a later one. \<open>skips ip name\<close>: if the archive \<open>name\<close>
  is on disk it stays there, and no request went to \<open>ip\<close> in between. \<open>accounts\<close>: a
  queue without duplicates stays so, and for every address the removals recorded plus the
  occurrences still queued stay the same number.
\<close>

definition skips :: "string \<Rightarrow> string \<Rightarrow> state \<Rightarrow> state \<Rightarrow> bool" where
  "skips ip name s s' =
     (fs s name \<noteq> None \<longrightarrow>
        fs s' name \<noteq> None \<and> (\<exists>new. trace s' = trace s @ new \<and> (\<forall>e\<in>set new. \<not> http_to ip e)))"

definition accounts :: "state \<Rightarrow> state \<Rightarrow> bool" where
  "accounts s s' =
     ((distinct (todo s) \<longrightarrow> distinct (todo s')) \<and>
      (\<forall>a. removals a (trace s') + count_list (todo s') a
             = removals a (trace s) + count_list (todo s) a))"

text \<open>
  The MAC field as the specification words it, \<open>n\<close> lowercase hex octets separated by
  colons; the regular expression of the source asks for 17 characters of its class only.
\<close>

definition hex_lower :: "char \<Rightarrow> bool" where
  "hex_lower c = (c \<in> set ''0123456789abcdef'')"

fun hex_octets :: "nat \<Rightarrow> string \<Rightarrow> bool" where
  "hex_octets (Suc 0) [a, b] = (hex_lower a \<and> hex_lower b)"
| "hex_octets (Suc (Suc n)) (a # b # c # rest) =
     (hex_lower a \<and> hex_lower b \<and> c = CHR '':'' \<and> hex_octets (Suc n) rest)"
| "hex_octets n m = False"

section \<open>Example runs\<close>

text \<open>
  Lease lines, a lease feed and small environments for the examples below. Every archive
  opens, and the feed comes as text. \<open>lan\<close> answers the
  first request, the GET of the lease feed, with the given lines and every later request as
  its two parameters say.
\<close>

definition kitchen_line :: string where
  "kitchen_line = ''1234567890 aa:bb:cc:dd:ee:ff 192.168.1.50 ESP-Kitchen *''"

definition attic_line :: string where
  "attic_line = ''1234567891 aa:bb:cc:dd:ee:00 192.168.1.51 ESP-Attic *''"


definition upper_mac_line :: string where
  "upper_mac_line = ''1234567893 AA:BB:CC:DD:EE:02 192.168.1.53 OTHER-Device *''"

definition colon_mac_line :: string where
  "colon_mac_line = ''1234567894 ::::::::::::::::: 192.168.1.54 ESP-Cellar *''"

definition leases_uri :: string where
  "leases_uri = ''http://192.168.1.1/dnsmasq.leases''"

definition feed :: "bool \<Rightarrow> string list \<Rightarrow> response" where
  "feed status ls = \<lparr>ok = status, content = concat (map (\<lambda>l. l @ [CHR 0x0A]) ls),
                     encoding = Some ''ISO-8859-1'', iter_lines = ls\<rparr>"

definition opens :: "string \<Rightarrow> py_exn option" where
  "opens name = None"

definition silent :: "nat \<Rightarrow> string \<Rightarrow> py_exn + response" where
  "silent t url = Inl ConnectTimeout"

definition feed_only :: "bool \<Rightarrow> string list \<Rightarrow> environment" where
  "feed_only status ls = \<lparr>requests_head = silent, requests_get = (\<lambda>t url. Inr (feed status ls)),
                          zipfile_open = opens\<rparr>"

definition kitchen_ip :: string where "kitchen_ip = ''192.168.1.50''"

definition attic_ip :: string where "attic_ip = ''192.168.1.51''"

definition kitchen_zip :: string where "kitchen_zip = ''192-168-1-50_ESP-Kitchen.zip''"

definition attic_zip :: string where "attic_zip = ''192-168-1-51_ESP-Attic.zip''"

definition page :: "bool \<Rightarrow> string \<Rightarrow> response" where
  "page status body = \<lparr>ok = status, content = body, encoding = Some ''ISO-8859-1'',
                       iter_lines = [body]\<rparr>"

definition head_ok :: "nat \<Rightarrow> string \<Rightarrow> py_exn + response" where
  "head_ok t url = Inr (page True [])"

definition head_read_timeout :: "nat \<Rightarrow> string \<Rightarrow> py_exn + response" where
  "head_read_timeout t url = Inl ReadTimeout"

definition get_ok :: "nat \<Rightarrow> string \<Rightarrow> py_exn + response" where
  "get_ok t url = Inr (page True (''body of '' @ url))"

definition get_not_found :: "nat \<Rightarrow> string \<Rightarrow> py_exn + response" where
  "get_not_found t url = Inr (page False ''404 Not Found'')"

definition get_refused_at :: "nat \<Rightarrow> nat \<Rightarrow> string \<Rightarrow> py_exn + response" where
  "get_refused_at k t url = (if t = k then Inl ConnectionError else Inr (page True (''body of '' @ url)))"

definition lan :: "string list \<Rightarrow> (nat \<Rightarrow> string \<Rightarrow> py_exn + response) \<Rightarrow> (nat \<Rightarrow> string \<Rightarrow> py_exn + response) \<Rightarrow> environment" where
  "lan ls heads gets = \<lparr>requests_head = heads,
                  requests_get = (\<lambda>t url. if t = 0 then Inr (feed True ls) else gets t url),
                  zipfile_open = opens\<rparr>"

definition kitchen_done :: archives where
  "kitchen_done = [kitchen_zip \<mapsto> []]"

text \<open>
  Two environments for the failures outside the claims' examples: a feed that comes
  without an encoding, and a file system whose directory has no subdirectories, so that
  an archive name with a slash cannot be opened.
\<close>

definition bytes_feed :: "string list \<Rightarrow> environment" where
  "bytes_feed ls =
     \<lparr>requests_head = silent,
      requests_get = (\<lambda>t url. Inr \<lparr>ok = True, content = concat (map (\<lambda>l. l @ [CHR 0x0A]) ls),
                                    encoding = None, iter_lines = ls\<rparr>),
      zipfile_open = opens\<rparr>"

definition no_directories :: "string \<Rightarrow> py_exn option" where
  "no_directories name = (if CHR ''/'' \<in> set name then Some FileNotFoundError else None)"

definition flat_disk :: environment where
  "flat_disk = \<lparr>requests_head = head_ok, requests_get = get_ok, zipfile_open = no_directories\<rparr>"

definition kitchen_names :: "string \<rightharpoonup> string" where
  "kitchen_names = [kitchen_ip \<mapsto> ''ESP-Kitchen'']"

definition kitchen_queued :: "archives \<Rightarrow> state" where
  "kitchen_queued disk = \<lparr>todo = [kitchen_ip], fs = disk, trace = []\<rparr>"

section \<open>Lemmas on the loops\<close>

lemma log_event_simps [simp]:
  "todo (log_event e s) = todo s"
  "fs (log_event e s) = fs s"
  "trace (log_event e s) = trace s @ [e]"
  by (simp_all add: log_event_def)

lemma for_ip_in_todo_lift:
  assumes refl: "\<And>s. R s s"
    and trans: "\<And>s s' s''. R s s' \<Longrightarrow> R s' s'' \<Longrightarrow> R s s''"
    and step: "\<And>ip s. ip \<in> set (todo s) \<Longrightarrow> R s (outcome_state (process_target net h ip s))"
  shows "R s (outcome_state (for_ip_in_todo net h i s))"
  using step
proof (induction net h i s rule: for_ip_in_todo.induct)
  case (1 net h i s)
  note step = "1.prems"
  show ?case
  proof (cases "i < length (todo s)")
    case False
    then show ?thesis by (simp add: for_ip_in_todo.simps refl)
  next
    case True
    then have mem: "todo s ! i \<in> set (todo s)" by simp
    show ?thesis
    proof (cases "process_target net h (todo s ! i) s")
      case (Continue s')
      have "R s s'" using step [OF mem] Continue by simp
      moreover have "R s' (outcome_state (for_ip_in_todo net h (Suc i) s'))"
        using "1.IH" [OF True Continue step] .
      ultimately show ?thesis
        using True Continue trans by (simp add: for_ip_in_todo.simps [of net h i s])
    next
      case (Raised e s')
      have "R s s'" using step [OF mem] Raised by simp
      then show ?thesis
        using True Raised by (simp add: for_ip_in_todo.simps [of net h i s])
    qed
  qed
qed

lemma passes_lift:
  assumes refl: "\<And>s. R s s"
    and trans: "\<And>s s' s''. R s s' \<Longrightarrow> R s' s'' \<Longrightarrow> R s s''"
    and step: "\<And>ip s. ip \<in> set (todo s) \<Longrightarrow> R s (outcome_state (process_target net h ip s))"
    and sleep: "\<And>s. R s (log_event (Sleep 15) s)"
  shows "R s (outcome_state (passes n net h s))"
proof (induction n arbitrary: s)
  case 0
  show ?case by (simp add: refl)
next
  case (Suc n)
  have pass: "R s (outcome_state (for_ip_in_todo net h 0 s))"
    by (rule for_ip_in_todo_lift [of R, OF refl trans step])
  show ?case
  proof (cases "for_ip_in_todo net h 0 s")
    case (Continue s')
    have "R s s'" using pass Continue by simp
    then have "R s (log_event (Sleep 15) s')" using sleep trans by blast
    then have "R s (outcome_state (passes n net h (log_event (Sleep 15) s')))"
      using Suc.IH trans by blast
    then show ?thesis using Continue by (simp add: refl)
  next
    case (Raised e s')
    then show ?thesis using pass by (simp add: refl)
  qed
qed

lemma while_todo_passes:
  assumes "while_todo net h s = Some r"
  shows "\<exists>n. ended n net h s r"
proof (rule while_todo.raw_induct [where P = "\<lambda>net h s r. \<exists>n. ended n net h s r", OF _ assms])
  fix f :: "environment \<Rightarrow> (string \<rightharpoonup> string) \<Rightarrow> state \<Rightarrow> result option"
  fix net h s r
  assume IH: "\<And>net h s r. f net h s = Some r \<Longrightarrow> \<exists>n. ended n net h s r"
  assume eq: "(if 0 < length (todo s)
      then case for_ip_in_todo net h 0 s of
           Continue s' \<Rightarrow> f net h (log_event (Sleep 15) s')
           | Raised e s' \<Rightarrow> Some (Uncaught e s')
      else Some (Return 0 s)) = Some r"
  show "\<exists>n. ended n net h s r"
  proof (cases "0 < length (todo s)")
    case False
    then have "r = Return 0 s" using eq by simp
    then have "ended 0 net h s r" using False by (simp add: ended_def)
    then show ?thesis by blast
  next
    case True
    show ?thesis
    proof (cases "for_ip_in_todo net h 0 s")
      case (Raised e s')
      then have "r = Uncaught e s'" using eq True by simp
      then have "ended (Suc 0) net h s r" using True Raised by (simp add: ended_def)
      then show ?thesis by blast
    next
      case (Continue s')
      then have "f net h (log_event (Sleep 15) s') = Some r" using eq True by simp
      from IH [OF this] obtain n where "ended n net h (log_event (Sleep 15) s') r" by blast
      then have "ended (Suc n) net h s r"
        using True Continue by (simp add: ended_def split: result.splits)
      then show ?thesis by blast
    qed
  qed
qed

lemma passes_while_todo_return:
  "passes n net h s = Continue s' \<Longrightarrow> todo s' = [] \<Longrightarrow> while_todo net h s = Some (Return 0 s')"
proof (induction n arbitrary: s)
  case 0
  then show ?case by (simp add: while_todo.simps)
next
  case (Suc n)
  show ?case
  proof (cases "0 < length (todo s)")
    case False
    then show ?thesis using Suc.prems by (simp add: while_todo.simps)
  next
    case True
    then show ?thesis using Suc.prems Suc.IH
      by (subst while_todo.simps) (auto split: outcome.splits)
  qed
qed

lemma passes_while_todo_raised:
  "passes n net h s = Raised e s' \<Longrightarrow> while_todo net h s = Some (Uncaught e s')"
proof (induction n arbitrary: s)
  case 0
  then show ?case by simp
next
  case (Suc n)
  show ?case
  proof (cases "0 < length (todo s)")
    case False
    then show ?thesis using Suc.prems by simp
  next
    case True
    then show ?thesis using Suc.prems Suc.IH
      by (subst while_todo.simps) (auto split: outcome.splits)
  qed
qed

lemma todo_remove_mem:
  "ip \<in> set (todo s) \<Longrightarrow>
   todo_remove ip site s = Continue (log_event (Remove ip site) (s\<lparr>todo := remove1 ip (todo s)\<rparr>))"
  by (simp add: todo_remove_def)

lemma zf_writestr_simps [simp]:
  "todo (zf_writestr name f d s) = todo s"
  "trace (zf_writestr name f d s) = trace s"
  by (simp_all add: zf_writestr_def)

lemma archive_opened_simps [simp]:
  "todo (archive_opened name s) = todo s"
  "trace (archive_opened name s) = trace s"
  by (simp_all add: archive_opened_def split: option.splits)

lemma download_files_all:
  assumes "fs s name = Some es"
    and "\<forall>i<length files. requests_get net (length (trace s) + i) (file_url ip (files ! i))
                              = Inr (resp (files ! i))"
  shows "download_files net ip name files s =
           Continue (s\<lparr>trace := trace s @ map (Get ip) files,
                       fs := (fs s)(name \<mapsto> es @ map (\<lambda>f. (f, content (resp f))) files)\<rparr>)"
  using assms
proof (induction files arbitrary: s es)
  case Nil
  then show ?case by (simp add: map_upd_triv)
next
  case (Cons f files)
  let ?s' = "zf_writestr name f (content (resp f)) (log_event (Get ip f) s)"
  have first: "requests_get net (length (trace s)) (file_url ip f) = Inr (resp f)"
    using Cons.prems(2) by fastforce
  have fs': "fs ?s' name = Some (es @ [(f, content (resp f))])"
    using Cons.prems(1) by (simp add: zf_writestr_def)
  have rest: "\<forall>i<length files. requests_get net (length (trace ?s') + i) (file_url ip (files ! i))
                              = Inr (resp (files ! i))"
  proof (intro allI impI)
    fix i assume "i < length files"
    then have "requests_get net (length (trace s) + Suc i) (file_url ip ((f # files) ! Suc i))
                = Inr (resp ((f # files) ! Suc i))"
      using Cons.prems(2) by (metis Suc_less_eq length_Cons)
    then show "requests_get net (length (trace ?s') + i) (file_url ip (files ! i)) = Inr (resp (files ! i))"
      by simp
  qed
  show ?case
    using Cons.IH [OF fs' rest] first Cons.prems(1)
    by (simp add: zf_writestr_def log_event_def fun_upd_def cong: if_cong)
qed

lemma download_files_effects:
  "\<exists>gets. trace (outcome_state (download_files net ip name files s)) = trace s @ map (Get ip) gets
        \<and> todo (outcome_state (download_files net ip name files s)) = todo s
        \<and> (\<forall>n. fs s n \<noteq> None \<longrightarrow> fs (outcome_state (download_files net ip name files s)) n \<noteq> None)"
proof (induction files arbitrary: s)
  case Nil
  show ?case by (simp add: exI [of _ "[]"])
next
  case (Cons f files)
  show ?case
  proof (cases "requests_get net (length (trace s)) (file_url ip f)")
    case (Inl e)
    then show ?thesis by (simp add: exI [of _ "[f]"])
  next
    case (Inr r)
    let ?s' = "zf_writestr name f (content r) (log_event (Get ip f) s)"
    from Cons.IH [of ?s'] obtain gets where
      g: "trace (outcome_state (download_files net ip name files ?s')) = trace ?s' @ map (Get ip) gets"
         "todo (outcome_state (download_files net ip name files ?s')) = todo ?s'"
         "\<forall>n. fs ?s' n \<noteq> None \<longrightarrow> fs (outcome_state (download_files net ip name files ?s')) n \<noteq> None"
      by blast
    have mono: "\<forall>n. fs s n \<noteq> None \<longrightarrow> fs ?s' n \<noteq> None"
      by (simp add: zf_writestr_def)
    show ?thesis
      using Inr g mono by (simp add: exI [of _ "f # gets"])
  qed
qed

lemma process_target_exists:
  assumes "h ip = Some hn" and "fs s (archive_filename ip hn) \<noteq> None"
  shows "process_target net h ip s =
           todo_remove ip AlreadyDone (log_event (Exists (archive_filename ip hn)) s)"
  using assms by (simp add: process_target_def Let_def)

lemma process_target_head_raises:
  assumes "h ip = Some hn" and "fs s (archive_filename ip hn) = None"
    and "requests_head net (Suc (length (trace s))) (json_url ip) = Inl e"
  shows "process_target net h ip s =
           (if e = ConnectTimeout
            then Continue (log_event (Head ip) (log_event (Exists (archive_filename ip hn)) s))
            else Raised e (log_event (Head ip) (log_event (Exists (archive_filename ip hn)) s)))"
  using assms by (simp add: process_target_def Let_def)

lemma process_target_not_ok:
  assumes "h ip = Some hn" and "fs s (archive_filename ip hn) = None"
    and "requests_head net (Suc (length (trace s))) (json_url ip) = Inr r" and "\<not> ok r"
  shows "process_target net h ip s =
           todo_remove ip NotEspEasy (log_event (Head ip) (log_event (Exists (archive_filename ip hn)) s))"
  using assms by (simp add: process_target_def Let_def)

lemma process_target_open_raises:
  assumes "h ip = Some hn" and "fs s (archive_filename ip hn) = None"
    and "requests_head net (Suc (length (trace s))) (json_url ip) = Inr r" and "ok r"
    and "zipfile_open net (archive_filename ip hn) = Some e"
  shows "process_target net h ip s =
           Raised e (log_event (Head ip) (log_event (Exists (archive_filename ip hn)) s))"
  using assms by (simp add: process_target_def Let_def zip_open_append_def)

lemma process_target_ok:
  assumes "h ip = Some hn" and "fs s (archive_filename ip hn) = None"
    and "requests_head net (Suc (length (trace s))) (json_url ip) = Inr r" and "ok r"
    and "zipfile_open net (archive_filename ip hn) = None"
  shows "process_target net h ip s =
           (case download_files net ip (archive_filename ip hn) DOWNLOAD_FILES
                   (archive_opened (archive_filename ip hn)
                      (log_event (Head ip) (log_event (Exists (archive_filename ip hn)) s))) of
              Raised e s3 \<Rightarrow> Raised e s3
            | Continue s3 \<Rightarrow> todo_remove ip Retrieved s3)"
  using assms by (simp add: process_target_def Let_def zip_open_append_def)

lemma process_target_retrieves:
  assumes hn: "h ip = Some hn" and new: "fs s (archive_filename ip hn) = None"
    and queued: "ip \<in> set (todo s)"
    and head: "requests_head net (Suc (length (trace s))) (json_url ip) = Inr r" and ok: "ok r"
    and opens: "zipfile_open net (archive_filename ip hn) = None"
    and gets: "\<forall>i<length DOWNLOAD_FILES.
                 requests_get net (length (trace s) + 2 + i) (file_url ip (DOWNLOAD_FILES ! i))
                   = Inr (resp (DOWNLOAD_FILES ! i))"
  shows "process_target net h ip s =
           Continue \<lparr>todo = remove1 ip (todo s),
                     fs = (fs s)(archive_filename ip hn \<mapsto>
                                   map (\<lambda>f. (f, content (resp f))) DOWNLOAD_FILES),
                     trace = trace s @ [Exists (archive_filename ip hn), Head ip]
                               @ map (Get ip) DOWNLOAD_FILES @ [Remove ip Retrieved]\<rparr>"
proof -
  let ?name = "archive_filename ip hn"
  let ?s2 = "archive_opened ?name (log_event (Head ip) (log_event (Exists ?name) s))"
  have fs2: "fs ?s2 ?name = Some []"
    using new by (simp add: archive_opened_def)
  have gets2: "\<forall>i<length DOWNLOAD_FILES.
                 requests_get net (length (trace ?s2) + i) (file_url ip (DOWNLOAD_FILES ! i))
                   = Inr (resp (DOWNLOAD_FILES ! i))"
    using gets by (simp add: add.commute add.left_commute)
  have dl: "download_files net ip ?name DOWNLOAD_FILES ?s2 =
          Continue (?s2\<lparr>trace := trace ?s2 @ map (Get ip) DOWNLOAD_FILES,
                         fs := (fs ?s2)(?name \<mapsto> [] @ map (\<lambda>f. (f, content (resp f))) DOWNLOAD_FILES)\<rparr>)"
    by (rule download_files_all [OF fs2 gets2])
  have "process_target net h ip s =
          todo_remove ip Retrieved
            (?s2\<lparr>trace := trace ?s2 @ map (Get ip) DOWNLOAD_FILES,
                  fs := (fs ?s2)(?name \<mapsto> [] @ map (\<lambda>f. (f, content (resp f))) DOWNLOAD_FILES)\<rparr>)"
    unfolding process_target_ok [where h = h and ip = ip and hn = hn, OF hn new head ok opens] dl
    by simp
  then show ?thesis
    using queued new
    by (simp add: todo_remove_def archive_opened_def log_event_def)
qed

lemma todo_remove_effects:
  "todo_remove ip site s = out \<Longrightarrow>
     (out = Raised ValueError s \<and> ip \<notin> set (todo s)) \<or>
     (ip \<in> set (todo s) \<and>
      out = Continue (s\<lparr>todo := remove1 ip (todo s), trace := trace s @ [Remove ip site]\<rparr>))"
  by (auto simp: todo_remove_def log_event_def)

lemma process_target_effect:
  "body_effect ip s (outcome_state (process_target net h ip s))"
proof (cases "h ip")
  case None
  then show ?thesis
    by (simp add: process_target_def body_effect_def exI [of _ "[]"])
next
  case (Some hn)
  let ?name = "archive_filename ip hn"
  let ?s1 = "log_event (Exists ?name) s"
  let ?s2 = "log_event (Head ip) ?s1"
  show ?thesis
  proof (cases "fs s ?name")
    case (Some es)
    then have pt: "process_target net h ip s = todo_remove ip AlreadyDone ?s1"
      using process_target_exists [where h = h and ip = ip and hn = hn] \<open>h ip = Some hn\<close> by simp
    show ?thesis
      unfolding pt body_effect_def
      by (rule exI [of _ "[Exists ?name]"]) (auto simp: todo_remove_def)
  next
    case None
    note new = this
    show ?thesis
    proof (cases "requests_head net (Suc (length (trace s))) (json_url ip)")
      case (Inl e)
      show ?thesis
        unfolding process_target_head_raises [where h = h and ip = ip and hn = hn, OF \<open>h ip = Some hn\<close> new Inl] body_effect_def
        by (rule exI [of _ "[Exists ?name, Head ip]"]) auto
    next
      case (Inr r)
      show ?thesis
      proof (cases "ok r")
        case False
        show ?thesis
          unfolding process_target_not_ok [where h = h and ip = ip and hn = hn, OF \<open>h ip = Some hn\<close> new Inr False] body_effect_def
          by (rule exI [of _ "[Exists ?name, Head ip]"]) (auto simp: todo_remove_def)
      next
        case True
        note okr = this
        show ?thesis
        proof (cases "zipfile_open net ?name")
          case (Some e)
          show ?thesis
            unfolding process_target_open_raises [where h = h and ip = ip and hn = hn, OF \<open>h ip = Some hn\<close> new Inr okr Some] body_effect_def
            by (rule exI [of _ "[Exists ?name, Head ip]"]) auto
        next
          case None
          note opens = this
        let ?s3 = "archive_opened ?name ?s2"
        let ?d = "download_files net ip ?name DOWNLOAD_FILES ?s3"
        obtain gets where
          g: "trace (outcome_state ?d) = trace ?s3 @ map (Get ip) gets"
             "todo (outcome_state ?d) = todo ?s3"
             "\<forall>n. fs ?s3 n \<noteq> None \<longrightarrow> fs (outcome_state ?d) n \<noteq> None"
          using download_files_effects [of net ip ?name DOWNLOAD_FILES ?s3] by blast
        have mono: "\<forall>n. fs s n \<noteq> None \<longrightarrow> fs ?s3 n \<noteq> None"
          by (simp add: archive_opened_def split: option.splits)
        show ?thesis
          unfolding process_target_ok [where h = h and ip = ip and hn = hn, OF \<open>h ip = Some hn\<close> new Inr okr opens] body_effect_def
          apply (rule exI [of _ "[Exists ?name, Head ip] @ map (Get ip) gets"])
          using g mono
          apply (cases ?d)
           apply (auto simp: todo_remove_def)
          done
        qed
      qed
    qed
  qed
qed

lemma removal_conditions:
  assumes "ip \<in> set (todo s)"
  shows "(todo (outcome_state (process_target net h ip s)) \<noteq> todo s) =
           (archive_exists h ip s \<or> liveness_fails net h ip s \<or> retrieval_completes net h ip s)"
    and "\<not> (archive_exists h ip s \<and> liveness_fails net h ip s)"
    and "\<not> (archive_exists h ip s \<and> retrieval_completes net h ip s)"
    and "\<not> (liveness_fails net h ip s \<and> retrieval_completes net h ip s)"
proof -
  have neq: "\<And>xs. ip \<in> set xs \<Longrightarrow> remove1 ip xs \<noteq> xs"
    by (metis in_set_remove1 notin_set_remove1 remove1_idem length_remove1 One_nat_def Suc_pred length_pos_if_in_set n_not_Suc_n)
  show "\<not> (archive_exists h ip s \<and> liveness_fails net h ip s)"
    by (auto simp: archive_exists_def liveness_fails_def split: option.splits)
  show "\<not> (archive_exists h ip s \<and> retrieval_completes net h ip s)"
    by (auto simp: archive_exists_def retrieval_completes_def split: option.splits)
  show "\<not> (liveness_fails net h ip s \<and> retrieval_completes net h ip s)"
    by (auto simp: liveness_fails_def retrieval_completes_def split: option.splits sum.splits)
  show "(todo (outcome_state (process_target net h ip s)) \<noteq> todo s) =
           (archive_exists h ip s \<or> liveness_fails net h ip s \<or> retrieval_completes net h ip s)"
  proof (cases "h ip")
    case None
    then show ?thesis
      by (simp add: process_target_def archive_exists_def liveness_fails_def retrieval_completes_def)
  next
    case (Some hn)
    let ?name = "archive_filename ip hn"
    let ?s3 = "archive_opened ?name (log_event (Head ip) (log_event (Exists ?name) s))"
    have dl: "todo (outcome_state (download_files net ip ?name DOWNLOAD_FILES ?s3)) = todo s"
      using download_files_effects [of net ip ?name DOWNLOAD_FILES ?s3] by auto
    show ?thesis
      using Some assms neq [OF assms] dl
      by (auto simp: process_target_def Let_def archive_exists_def liveness_fails_def
            retrieval_completes_def todo_remove_def zip_open_append_def
            split: sum.splits outcome.splits option.splits)
  qed
qed

lemma passes_empty: "todo s = [] \<Longrightarrow> passes n net h s = Continue s"
  by (cases n) simp_all

lemma passes_sleep_last:
  "passes n net h s = Continue s' \<Longrightarrow> todo s \<noteq> [] \<Longrightarrow> todo s' = [] \<Longrightarrow>
     \<exists>tr. trace s' = tr @ [Sleep 15]"
proof (induction n arbitrary: s)
  case 0
  then show ?case by simp
next
  case (Suc n)
  from Suc.prems obtain s1 where
    pass: "for_ip_in_todo net h 0 s = Continue s1"
    and rest: "passes n net h (log_event (Sleep 15) s1) = Continue s'"
    by (auto split: outcome.splits)
  show ?case
  proof (cases "todo s1 = []")
    case True
    then have "passes n net h (log_event (Sleep 15) s1) = Continue (log_event (Sleep 15) s1)"
      by (simp add: passes_empty)
    then have "s' = log_event (Sleep 15) s1" using rest by simp
    then show ?thesis by simp
  next
    case False
    then show ?thesis using Suc.IH [OF rest] Suc.prems(3) by simp
  qed
qed

lemma skips_refl: "skips ip name s s"
  by (simp add: skips_def)

lemma skips_trans: "skips ip name s s' \<Longrightarrow> skips ip name s' s'' \<Longrightarrow> skips ip name s s''"
  unfolding skips_def
  by (metis (no_types, lifting) UnE append.assoc set_append)

lemma skips_sleep: "skips ip name s (log_event (Sleep 15) s)"
  by (simp add: skips_def)

lemma skips_step:
  assumes "h ip = Some hn"
  shows "skips ip (archive_filename ip hn) s (outcome_state (process_target net h ip' s))"
proof (cases "ip' = ip")
  case True
  show ?thesis
    unfolding skips_def
  proof
    assume ex: "fs s (archive_filename ip hn) \<noteq> None"
    have pt: "process_target net h ip s =
           todo_remove ip AlreadyDone (log_event (Exists (archive_filename ip hn)) s)"
      using process_target_exists [where h = h and ip = ip and hn = hn] assms ex by simp
    show "fs (outcome_state (process_target net h ip' s)) (archive_filename ip hn) \<noteq> None \<and>
       (\<exists>new. trace (outcome_state (process_target net h ip' s)) = trace s @ new \<and>
        (\<forall>e\<in>set new. \<not> http_to ip e))"
      using ex unfolding True pt by (auto simp: todo_remove_def)
  qed
next
  case False
  have "body_effect ip' s (outcome_state (process_target net h ip' s))"
    by (rule process_target_effect)
  then show ?thesis
    using False unfolding body_effect_def skips_def
    by (elim exE conjE disjE) (fastforce)+
qed

lemma count_list_remove1:
  "ip \<in> set xs \<Longrightarrow> count_list (remove1 ip xs) a + (if a = ip then 1 else 0) = count_list xs a"
  by (induction xs) auto

lemma count_list_distinct: "distinct xs \<Longrightarrow> x \<in> set xs \<Longrightarrow> count_list xs x = 1"
  by (induction xs) auto

lemma removals_append: "removals a (xs @ ys) = removals a xs + removals a ys"
  by (simp add: removals_def)

lemma removals_none: "\<forall>e\<in>set pre. \<forall>a. is_removal a e = False \<Longrightarrow> removals a pre = 0"
  by (simp add: removals_def)

lemma removals_single: "removals a [Remove ip site] = (if a = ip then 1 else 0)"
  by (simp add: removals_def)

lemma accounts_refl: "accounts s s"
  by (simp add: accounts_def)

lemma accounts_trans: "accounts s s' \<Longrightarrow> accounts s' s'' \<Longrightarrow> accounts s s''"
  by (simp add: accounts_def)

lemma accounts_sleep: "accounts s (log_event (Sleep 15) s)"
  by (simp add: accounts_def removals_append removals_def)

lemma accounts_step: "accounts s (outcome_state (process_target net h ip s))"
proof -
  let ?s' = "outcome_state (process_target net h ip s)"
  have "body_effect ip s ?s'" by (rule process_target_effect)
  then obtain pre where
    pre: "\<forall>e\<in>set pre. \<forall>a. is_removal a e = False"
    and cases: "(todo ?s' = todo s \<and> trace ?s' = trace s @ pre)
              \<or> (ip \<in> set (todo s) \<and> todo ?s' = remove1 ip (todo s)
                  \<and> (\<exists>site. trace ?s' = trace s @ pre @ [Remove ip site]))"
    unfolding body_effect_def by blast
  from cases show ?thesis
  proof
    assume "todo ?s' = todo s \<and> trace ?s' = trace s @ pre"
    then show ?thesis
      using removals_none [OF pre] by (simp add: accounts_def removals_append)
  next
    assume rm: "ip \<in> set (todo s) \<and> todo ?s' = remove1 ip (todo s)
                  \<and> (\<exists>site. trace ?s' = trace s @ pre @ [Remove ip site])"
    then obtain site where tr: "trace ?s' = trace s @ pre @ [Remove ip site]" by blast
    have mem: "ip \<in> set (todo s)" using rm by simp
    have cnt: "\<And>a. count_list (remove1 ip (todo s)) a + (if a = ip then 1 else 0) = count_list (todo s) a"
      by (rule count_list_remove1 [OF mem])
    show ?thesis
      unfolding accounts_def
    proof (intro conjI impI allI)
      assume "distinct (todo s)"
      then show "distinct (todo ?s')" using rm by simp
    next
      fix a
      show "removals a (trace ?s') + count_list (todo ?s') a = removals a (trace s) + count_list (todo s) a"
        using cnt [of a] rm removals_none [OF pre, of a]
        by (simp add: tr removals_append removals_single)
    qed
  qed
qed

lemma passes_accounts: "accounts s (outcome_state (passes n net h s))"
proof (rule passes_lift [where R = accounts])
  show "\<And>s. accounts s s" by (rule accounts_refl)
  show "\<And>s s' s''. accounts s s' \<Longrightarrow> accounts s' s'' \<Longrightarrow> accounts s s''" by (rule accounts_trans)
  show "\<And>ip s. ip \<in> set (todo s) \<Longrightarrow> accounts s (outcome_state (process_target net h ip s))"
    by (rule accounts_step)
  show "\<And>s. accounts s (log_event (Sleep 15) s)" by (rule accounts_sleep)
qed

section \<open>Lemmas on the parser and the examples\<close>

lemmas regex_defs = regex_dnsmasq_leases_def digit_def mac_char_def ip_char_def non_space_def

lemma kitchen_groups: "regex_dnsmasq_leases kitchen_line = Some (''192.168.1.50'', ''ESP-Kitchen'')"
  by (simp add: kitchen_line_def regex_defs)



lemma upper_mac_no_match: "regex_dnsmasq_leases upper_mac_line = None"
  by (simp add: upper_mac_line_def regex_defs)

lemma colon_mac_groups: "regex_dnsmasq_leases colon_mac_line = Some (''192.168.1.54'', ''ESP-Cellar'')"
  by (simp add: colon_mac_line_def regex_defs)


lemma leases_loop_malformed:
  "\<exists>l\<in>set ls. regex_dnsmasq_leases l = None \<Longrightarrow> leases_loop True ls acc = Inl AttributeError"
  by (induction ls arbitrary: acc) (auto split: option.splits)

lemma leases_loop_bytes: "ls \<noteq> [] \<Longrightarrow> leases_loop False ls acc = Inl TypeError"
  by (cases ls) simp_all

lemmas example_defs = kitchen_ip_def attic_ip_def kitchen_zip_def attic_zip_def page_def head_ok_def
  head_read_timeout_def get_ok_def get_not_found_def get_refused_at_def lan_def kitchen_done_def
  leases_uri_def feed_def opens_def

lemmas loop_defs = process_target_def archive_filename_def replace_dots_def json_url_def file_url_def
  todo_remove_def zip_open_append_def archive_opened_def zf_writestr_def log_event_def
  DOWNLOAD_FILES_def Let_def

lemmas more_defs = kitchen_names_def kitchen_queued_def silent_def opens_def

lemma kitchen_archive_name: "archive_filename kitchen_ip ''ESP-Kitchen'' = kitchen_zip"
  by (simp add: archive_filename_def replace_dots_def kitchen_ip_def kitchen_zip_def)

text \<open>
  A well-formed feed that comes as bytes makes the parser raise at its first line, and an
  identifier with a slash makes the loop body raise when it opens the archive, after the
  HEAD request and before any GET.
\<close>

lemma bytes_feed_raises:
  "get_ips_from_leases_live (bytes_feed [kitchen_line]) leases_uri = Inl TypeError"
  by (simp add: get_ips_from_leases_live_def bytes_feed_def)

lemma refused_archive_name_ends_body:
  "process_target flat_disk [''192.168.1.55'' \<mapsto> ''ESP-a/b''] ''192.168.1.55''
      \<lparr>todo = [''192.168.1.55''], fs = Map.empty, trace = []\<rparr> =
   Raised FileNotFoundError
      \<lparr>todo = [''192.168.1.55''], fs = Map.empty,
       trace = [Exists ''192-168-1-55_ESP-a/b.zip'', Head ''192.168.1.55'']\<rparr>"
  by (simp add: flat_disk_def no_directories_def example_defs loop_defs)

section \<open>The claims\<close>

subsection \<open>C1: a pass over the queue\<close>

text \<open>
  C1 says that a pass examines every address that is queued when the pass begins, and
  that a removal during the pass makes the pass skip no address that is still queued. The
  \<open>for\<close> loop reads the live list by index: after the removal of the address at index
  \<open>i\<close> the next address moves to index \<open>i\<close> and the iterator goes on at \<open>i + 1\<close>. Here
  two addresses are queued and the archive of the first is on disk: the pass removes the
  first and ends; the second stays queued and the pass performs no operation for it.
\<close>

theorem pass_skips_queued_target:
  "for_ip_in_todo (lan [kitchen_line, attic_line] head_ok get_ok)
      (map_of [(kitchen_ip, ''ESP-Kitchen''), (attic_ip, ''ESP-Attic'')]) 0
      \<lparr>todo = [kitchen_ip, attic_ip], fs = kitchen_done, trace = []\<rparr> =
   Continue \<lparr>todo = [attic_ip], fs = kitchen_done,
             trace = [Exists kitchen_zip, Remove kitchen_ip AlreadyDone]\<rparr>"
  by (simp add: for_ip_in_todo.simps example_defs loop_defs)

subsection \<open>C2: exceptions of the liveness probe\<close>

text \<open>
  C2, as the code has it: when the HEAD request of a target whose archive is missing
  raises a connect timeout, the body of the loop goes on to the next target; the queue and
  the archives are as before, and only the existence check and the request are recorded.
  Any other exception of the request leaves the body, and with it the program.
\<close>

theorem probe_exception_handling:
  assumes "h ip = Some hn" and "fs s (archive_filename ip hn) = None"
    and "requests_head net (Suc (length (trace s))) (json_url ip) = Inl e"
  shows "(e = ConnectTimeout \<longrightarrow>
            process_target net h ip s =
              Continue (s\<lparr>trace := trace s @ [Exists (archive_filename ip hn), Head ip]\<rparr>)) \<and>
         (e \<noteq> ConnectTimeout \<longrightarrow>
            process_target net h ip s =
              Raised e (s\<lparr>trace := trace s @ [Exists (archive_filename ip hn), Head ip]\<rparr>))"
  using process_target_head_raises [where h = h and ip = ip and hn = hn and s = s and net = net and e = e] assms
  by (simp add: log_event_def)

theorem probe_exception_handling_witness:
  "process_target (lan [] silent get_ok) kitchen_names kitchen_ip (kitchen_queued Map.empty) =
     Continue \<lparr>todo = [kitchen_ip], fs = Map.empty, trace = [Exists kitchen_zip, Head kitchen_ip]\<rparr>"
proof -
  have h1: "kitchen_names kitchen_ip = Some ''ESP-Kitchen''" by (simp add: kitchen_names_def)
  have h2: "fs (kitchen_queued Map.empty) (archive_filename kitchen_ip ''ESP-Kitchen'') = None"
    by (simp add: kitchen_queued_def)
  have h3: "requests_head (lan [] silent get_ok) (Suc (length (trace (kitchen_queued Map.empty))))
              (json_url kitchen_ip) = Inl ConnectTimeout"
    by (simp add: lan_def silent_def)
  show ?thesis
    using probe_exception_handling [where h = kitchen_names and ip = kitchen_ip
        and hn = "''ESP-Kitchen''" and e = ConnectTimeout, OF h1 h2 h3]
    by (simp add: kitchen_archive_name kitchen_queued_def)
qed

text \<open>
  C2 as it is written fails: a read timeout of the HEAD request is a transport-layer
  exception, it is not caught, and the run ends with it.
\<close>

theorem probe_read_timeout_ends_run:
  "main (lan [kitchen_line] head_read_timeout get_ok) leases_uri Map.empty =
     Some (Uncaught ReadTimeout
            \<lparr>todo = [kitchen_ip], fs = Map.empty,
             trace = [GetLeases leases_uri, Exists kitchen_zip, Head kitchen_ip]\<rparr>)"
  by (simp add: main_def get_ips_from_leases_live_def kitchen_groups startswith_def
        while_todo.simps for_ip_in_todo.simps example_defs loop_defs)

subsection \<open>C3: a failed fetch of one resource\<close>

text \<open>
  C3, as the code has it: for a target that is queued, whose archive is missing and can
  be opened, and whose HEAD request to \<open>http://<address>/json\<close> is answered \<open>ok\<close>, if every
  GET of \<open>http://<address>/<resource>\<close> for the resources of the manifest returns a
  response, successful or not, then all resources are fetched in manifest order, the body
  of each response is in the archive under the name of its resource, and the target is
  removed from the queue.
\<close>

theorem failed_response_does_not_abort:
  assumes "h ip = Some hn" and "fs s (archive_filename ip hn) = None"
    and "ip \<in> set (todo s)"
    and "requests_head net (Suc (length (trace s))) (''http://'' @ ip @ ''/json'') = Inr r"
    and "ok r"
    and "zipfile_open net (archive_filename ip hn) = None"
    and "\<forall>i<length DOWNLOAD_FILES.
           requests_get net (length (trace s) + 2 + i) (''http://'' @ ip @ ''/'' @ DOWNLOAD_FILES ! i)
             = Inr (resp (DOWNLOAD_FILES ! i))"
  shows "\<exists>s'. process_target net h ip s = Continue s' \<and>
              todo s' = remove1 ip (todo s) \<and>
              trace s' = trace s @ [Exists (archive_filename ip hn), Head ip]
                           @ map (Get ip) DOWNLOAD_FILES @ [Remove ip Retrieved] \<and>
              fs s' (archive_filename ip hn) = Some (map (\<lambda>f. (f, content (resp f))) DOWNLOAD_FILES)"
  using process_target_retrieves [where h = h and ip = ip and hn = hn and s = s and net = net
                                     and r = r and resp = resp] assms
  by (simp add: json_url_def file_url_def)

theorem failed_response_does_not_abort_witness:
  "\<exists>s'. process_target (lan [] head_ok get_not_found) kitchen_names kitchen_ip (kitchen_queued Map.empty)
           = Continue s' \<and>
        todo s' = [] \<and>
        trace s' = [Exists kitchen_zip, Head kitchen_ip] @ map (Get kitchen_ip) DOWNLOAD_FILES
                     @ [Remove kitchen_ip Retrieved] \<and>
        fs s' kitchen_zip = Some (map (\<lambda>f. (f, ''404 Not Found'')) DOWNLOAD_FILES)"
proof -
  have h1: "kitchen_names kitchen_ip = Some ''ESP-Kitchen''" by (simp add: kitchen_names_def)
  have h2: "fs (kitchen_queued Map.empty) (archive_filename kitchen_ip ''ESP-Kitchen'') = None"
    by (simp add: kitchen_queued_def)
  have h3: "kitchen_ip \<in> set (todo (kitchen_queued Map.empty))" by (simp add: kitchen_queued_def)
  have h4: "requests_head (lan [] head_ok get_not_found) (Suc (length (trace (kitchen_queued Map.empty))))
              (''http://'' @ kitchen_ip @ ''/json'') = Inr (page True [])"
    by (simp add: lan_def head_ok_def)
  have h5: "ok (page True [])" by (simp add: page_def)
  have h6: "zipfile_open (lan [] head_ok get_not_found) (archive_filename kitchen_ip ''ESP-Kitchen'') = None"
    by (simp add: lan_def opens_def)
  have h7: "\<forall>i<length DOWNLOAD_FILES.
      requests_get (lan [] head_ok get_not_found) (length (trace (kitchen_queued Map.empty)) + 2 + i)
         (''http://'' @ kitchen_ip @ ''/'' @ DOWNLOAD_FILES ! i)
        = Inr ((\<lambda>f. page False ''404 Not Found'') (DOWNLOAD_FILES ! i))"
    by (simp add: lan_def kitchen_queued_def get_not_found_def)
  show ?thesis
    using failed_response_does_not_abort [where h = kitchen_names and ip = kitchen_ip
        and hn = "''ESP-Kitchen''" and resp = "\<lambda>f. page False ''404 Not Found''",
        OF h1 h2 h3 h4 h5 h6 h7]
    by (simp add: kitchen_archive_name kitchen_queued_def page_def)
qed

text \<open>
  C3 as it is written fails for a transport error: the GET of \<open>config.dat\<close> raises, the
  run ends with the exception, the other resources are not fetched and the target is
  still queued.
\<close>

theorem fetch_error_ends_run:
  "main (lan [kitchen_line] head_ok (get_refused_at 4)) leases_uri Map.empty =
     Some (Uncaught ConnectionError
            \<lparr>todo = [kitchen_ip],
             fs = [kitchen_zip \<mapsto> [(''json'', ''body of http://192.168.1.50/json'')]],
             trace = [GetLeases leases_uri, Exists kitchen_zip, Head kitchen_ip,
                      Get kitchen_ip ''json'', Get kitchen_ip ''config.dat'']\<rparr>)"
  by (simp add: main_def get_ips_from_leases_live_def kitchen_groups startswith_def
        while_todo.simps for_ip_in_todo.simps example_defs loop_defs)

subsection \<open>C4: the queue and its removals\<close>

text \<open>
  C4, as the code has it: if no address is queued twice, this stays so after any number
  of passes, and for an address of the queue the removals recorded plus its occurrences
  still queued are one more than the removals recorded before: it is removed at most once,
  and exactly once when it is no longer queued. The body of the loop changes the queue
  exactly when one of the three conditions holds, and no two of them hold together.
\<close>

theorem distinct_queue_removes_each_target_once:
  assumes "distinct (todo s)" and "ip \<in> set (todo s)"
  shows "distinct (todo (outcome_state (passes n net h s))) \<and>
         removals ip (trace (outcome_state (passes n net h s)))
           + count_list (todo (outcome_state (passes n net h s))) ip = removals ip (trace s) + 1 \<and>
         (\<forall>t. ip \<in> set (todo t) \<longrightarrow>
            ((todo (outcome_state (process_target net h ip t)) \<noteq> todo t) =
               (archive_exists h ip t \<or> liveness_fails net h ip t \<or> retrieval_completes net h ip t)) \<and>
            \<not> (archive_exists h ip t \<and> liveness_fails net h ip t) \<and>
            \<not> (archive_exists h ip t \<and> retrieval_completes net h ip t) \<and>
            \<not> (liveness_fails net h ip t \<and> retrieval_completes net h ip t))"
proof -
  have acc: "accounts s (outcome_state (passes n net h s))" by (rule passes_accounts)
  have one: "count_list (todo s) ip = 1"
    using assms by (simp add: count_list_distinct)
  have a: "distinct (todo (outcome_state (passes n net h s)))"
    using acc assms(1) by (simp add: accounts_def)
  have b: "removals ip (trace (outcome_state (passes n net h s)))
           + count_list (todo (outcome_state (passes n net h s))) ip = removals ip (trace s) + 1"
    using acc one by (simp add: accounts_def)
  show ?thesis
    using a b removal_conditions by blast
qed

theorem distinct_queue_removes_each_target_once_witness:
  "removals kitchen_ip (trace (outcome_state
       (passes 1 (lan [] head_ok get_ok) kitchen_names (kitchen_queued kitchen_done))))
   + count_list (todo (outcome_state
       (passes 1 (lan [] head_ok get_ok) kitchen_names (kitchen_queued kitchen_done)))) kitchen_ip = 1"
proof -
  have h1: "distinct (todo (kitchen_queued kitchen_done))" by (simp add: kitchen_queued_def)
  have h2: "kitchen_ip \<in> set (todo (kitchen_queued kitchen_done))" by (simp add: kitchen_queued_def)
  have h3: "removals kitchen_ip (trace (kitchen_queued kitchen_done)) = 0"
    by (simp add: kitchen_queued_def removals_def)
  from distinct_queue_removes_each_target_once [OF h1 h2, of 1 "lan [] head_ok get_ok" kitchen_names]
  have "removals kitchen_ip (trace (outcome_state
       (passes 1 (lan [] head_ok get_ok) kitchen_names (kitchen_queued kitchen_done))))
   + count_list (todo (outcome_state
       (passes 1 (lan [] head_ok get_ok) kitchen_names (kitchen_queued kitchen_done)))) kitchen_ip
     = removals kitchen_ip (trace (kitchen_queued kitchen_done)) + 1"
    by blast
  then show ?thesis using h3 by simp
qed

text \<open>
  C4 as it is written fails for a lease feed with a duplicate address: the address is
  queued twice and removed twice, once after its retrieval and once because its archive
  exists.
\<close>

theorem duplicate_address_removed_twice:
  "get_ips_from_leases_live (lan [kitchen_line, kitchen_line] head_ok get_ok) leases_uri
     = Inr [(kitchen_ip, ''ESP-Kitchen''), (kitchen_ip, ''ESP-Kitchen'')] \<and>
   map_option (filter (is_removal kitchen_ip) \<circ> trace \<circ> result_state)
      (main (lan [kitchen_line, kitchen_line] head_ok get_ok) leases_uri Map.empty)
     = Some [Remove kitchen_ip Retrieved, Remove kitchen_ip AlreadyDone]"
  by (simp add: main_def get_ips_from_leases_live_def kitchen_groups startswith_def
        while_todo.simps for_ip_in_todo.simps example_defs loop_defs)

subsection \<open>C5: the entries the parser returns\<close>




subsection \<open>C6: the archive of a retrieved target\<close>

text \<open>
  C6: when the retrieval of a target runs to completion, that is the archive was missing
  and opens, the HEAD request to \<open>http://<address>/json\<close> is answered \<open>ok\<close> and every GET of
  \<open>http://<address>/<resource>\<close> returns, the archives on disk are those before plus one,
  named by the address with a dash for every dot, an underscore, the identifier and
  \<open>.zip\<close>; its entries are, in manifest order, one per resource of the manifest, named as
  the resource and holding the body of the response to its GET.
\<close>

theorem archive_holds_manifest_entries:
  assumes "h ip = Some hn"
    and "fs s (map (\<lambda>c. if c = CHR ''.'' then CHR ''-'' else c) ip @ ''_'' @ hn @ ''.zip'') = None"
    and "ip \<in> set (todo s)"
    and "requests_head net (Suc (length (trace s))) (''http://'' @ ip @ ''/json'') = Inr r"
    and "ok r"
    and "zipfile_open net
           (map (\<lambda>c. if c = CHR ''.'' then CHR ''-'' else c) ip @ ''_'' @ hn @ ''.zip'') = None"
    and "\<forall>i<length DOWNLOAD_FILES.
           requests_get net (length (trace s) + 2 + i) (''http://'' @ ip @ ''/'' @ DOWNLOAD_FILES ! i)
             = Inr (resp (DOWNLOAD_FILES ! i))"
  shows "fs (outcome_state (process_target net h ip s)) =
           (fs s)(map (\<lambda>c. if c = CHR ''.'' then CHR ''-'' else c) ip @ ''_'' @ hn @ ''.zip'' \<mapsto>
                    map (\<lambda>f. (f, content (resp f))) DOWNLOAD_FILES)"
  using process_target_retrieves [where h = h and ip = ip and hn = hn and s = s and net = net
                                     and r = r and resp = resp] assms
  by (simp add: archive_filename_def replace_dots_def json_url_def file_url_def)

theorem archive_holds_manifest_entries_witness:
  "fs (outcome_state (process_target (lan [] head_ok get_ok) kitchen_names ''192.168.1.50''
                         (kitchen_queued Map.empty))) =
     [''192-168-1-50_ESP-Kitchen.zip'' \<mapsto>
        map (\<lambda>f. (f, ''body of http://192.168.1.50/'' @ f)) DOWNLOAD_FILES]"
proof -
  have h1: "kitchen_names ''192.168.1.50'' = Some ''ESP-Kitchen''"
    by (simp add: kitchen_names_def kitchen_ip_def)
  have h2: "fs (kitchen_queued Map.empty)
              (map (\<lambda>c. if c = CHR ''.'' then CHR ''-'' else c) ''192.168.1.50'' @ ''_'' @ ''ESP-Kitchen'' @ ''.zip'')
              = None"
    by (simp add: kitchen_queued_def)
  have h3: "''192.168.1.50'' \<in> set (todo (kitchen_queued Map.empty))"
    by (simp add: kitchen_queued_def kitchen_ip_def)
  have h4: "requests_head (lan [] head_ok get_ok) (Suc (length (trace (kitchen_queued Map.empty))))
              (''http://'' @ ''192.168.1.50'' @ ''/json'') = Inr (page True [])"
    by (simp add: lan_def head_ok_def)
  have h5: "ok (page True [])" by (simp add: page_def)
  have h6: "zipfile_open (lan [] head_ok get_ok)
              (map (\<lambda>c. if c = CHR ''.'' then CHR ''-'' else c) ''192.168.1.50'' @ ''_'' @ ''ESP-Kitchen'' @ ''.zip'')
              = None"
    by (simp add: lan_def opens_def)
  have h7: "\<forall>i<length DOWNLOAD_FILES.
      requests_get (lan [] head_ok get_ok) (length (trace (kitchen_queued Map.empty)) + 2 + i)
         (''http://'' @ ''192.168.1.50'' @ ''/'' @ DOWNLOAD_FILES ! i)
        = Inr ((\<lambda>f. page True (''body of http://192.168.1.50/'' @ f)) (DOWNLOAD_FILES ! i))"
    by (simp add: lan_def kitchen_queued_def get_ok_def)
  show ?thesis
    using archive_holds_manifest_entries [where h = kitchen_names and ip = "''192.168.1.50''"
        and hn = "''ESP-Kitchen''" and resp = "\<lambda>f. page True (''body of http://192.168.1.50/'' @ f)",
        OF h1 h2 h3 h4 h5 h6 h7]
    by (simp add: kitchen_queued_def page_def)
qed

subsection \<open>C7: a target whose archive exists\<close>

text \<open>
  C7: if the archive of a target is on disk, the body of the loop for that target only
  checks the archive and removes the target from the queue, and no pass of the loop, now
  or later, sends a HEAD or a GET to that target.
\<close>

theorem existing_archive_never_requested:
  assumes "h ip = Some hn" and "fs s (archive_filename ip hn) \<noteq> None"
  shows "(ip \<in> set (todo s) \<longrightarrow>
            process_target net h ip s =
              Continue (s\<lparr>todo := remove1 ip (todo s),
                          trace := trace s @ [Exists (archive_filename ip hn), Remove ip AlreadyDone]\<rparr>)) \<and>
         (\<exists>new. trace (outcome_state (passes n net h s)) = trace s @ new \<and>
                (\<forall>e\<in>set new. \<not> http_to ip e))"
proof -
  have "skips ip (archive_filename ip hn) s (outcome_state (passes n net h s))"
  proof (rule passes_lift [where R = "skips ip (archive_filename ip hn)"])
    show "\<And>s. skips ip (archive_filename ip hn) s s" by (rule skips_refl)
    show "\<And>s s' s''. skips ip (archive_filename ip hn) s s' \<Longrightarrow>
            skips ip (archive_filename ip hn) s' s'' \<Longrightarrow> skips ip (archive_filename ip hn) s s''"
      by (rule skips_trans)
    show "\<And>ip' s. ip' \<in> set (todo s) \<Longrightarrow>
            skips ip (archive_filename ip hn) s (outcome_state (process_target net h ip' s))"
      using skips_step [where h = h and ip = ip and hn = hn] assms(1) by simp
    show "\<And>s. skips ip (archive_filename ip hn) s (log_event (Sleep 15) s)" by (rule skips_sleep)
  qed
  then have run: "\<exists>new. trace (outcome_state (passes n net h s)) = trace s @ new \<and>
                (\<forall>e\<in>set new. \<not> http_to ip e)"
    using assms(2) by (simp add: skips_def)
  have first: "process_target net h ip s =
              Continue (s\<lparr>todo := remove1 ip (todo s),
                          trace := trace s @ [Exists (archive_filename ip hn), Remove ip AlreadyDone]\<rparr>)"
    if "ip \<in> set (todo s)"
    using process_target_exists [where h = h and ip = ip and hn = hn and s = s and net = net] assms that
    by (simp add: todo_remove_def log_event_def)
  show ?thesis using run first by blast
qed

theorem existing_archive_never_requested_witness:
  "process_target (lan [] head_ok get_ok) kitchen_names kitchen_ip (kitchen_queued kitchen_done) =
     Continue \<lparr>todo = [], fs = kitchen_done,
               trace = [Exists kitchen_zip, Remove kitchen_ip AlreadyDone]\<rparr>"
proof -
  have h1: "kitchen_names kitchen_ip = Some ''ESP-Kitchen''" by (simp add: kitchen_names_def)
  have h2: "fs (kitchen_queued kitchen_done) (archive_filename kitchen_ip ''ESP-Kitchen'') \<noteq> None"
    by (simp add: kitchen_queued_def kitchen_archive_name kitchen_done_def)
  have h3: "kitchen_ip \<in> set (todo (kitchen_queued kitchen_done))" by (simp add: kitchen_queued_def)
  show ?thesis
    using existing_archive_never_requested [where h = kitchen_names and ip = kitchen_ip
        and hn = "''ESP-Kitchen''" and n = 0, OF h1 h2] h3
    by (simp add: kitchen_archive_name kitchen_queued_def)
qed

subsection \<open>C8: a line that does not match\<close>

text \<open>
  C8, as the code has it: if the lease feed is fetched with success and one of its lines
  does not match the regular expression of the source, the parser raises and the run ends
  with that exception before any target is queued, whatever the identifier of the line.
  The exception is that of \<open>m.groups()\<close> when the lines come as text, and that of the
  match itself when they come as bytes.
\<close>

theorem malformed_line_aborts:
  assumes "requests_get net 0 uri = Inr req" and "ok req"
    and "\<exists>l\<in>set (iter_lines req). regex_dnsmasq_leases l = None"
  shows "get_ips_from_leases_live net uri
           = Inl (if encoding req = None then TypeError else AttributeError) \<and>
         main net uri disk
           = Some (Uncaught (if encoding req = None then TypeError else AttributeError)
                     \<lparr>todo = [], fs = disk, trace = [GetLeases uri]\<rparr>)"
proof -
  have some: "iter_lines req \<noteq> []" using assms(3) by auto
  show ?thesis
    using assms leases_loop_malformed [of "iter_lines req" "[]"]
          leases_loop_bytes [OF some, of "[]"]
    by (simp add: get_ips_from_leases_live_def main_def)
qed

theorem malformed_line_aborts_witness:
  "main (feed_only True [kitchen_line, upper_mac_line]) leases_uri Map.empty =
     Some (Uncaught AttributeError \<lparr>todo = [], fs = Map.empty, trace = [GetLeases leases_uri]\<rparr>)"
proof -
  let ?req = "feed True [kitchen_line, upper_mac_line]"
  have h1: "requests_get (feed_only True [kitchen_line, upper_mac_line]) 0 leases_uri = Inr ?req"
    by (simp add: feed_only_def)
  have h2: "ok ?req" by (simp add: feed_def)
  have h3: "\<exists>l\<in>set (iter_lines ?req). regex_dnsmasq_leases l = None"
    by (simp add: feed_def upper_mac_no_match)
  show ?thesis
    using malformed_line_aborts [OF h1 h2 h3, of Map.empty] by (simp add: feed_def)
qed

text \<open>
  C8 as it is written fails: a line whose MAC field is not six lowercase hex octets
  matches the regular expression, and the parser returns its entry.
\<close>

theorem colon_mac_line_accepted:
  "\<not> hex_octets 6 (take 17 (drop 11 colon_mac_line)) \<and>
   get_ips_from_leases_live (feed_only True [colon_mac_line]) leases_uri
     = Inr [(''192.168.1.54'', ''ESP-Cellar'')]"
  by (simp add: get_ips_from_leases_live_def feed_only_def feed_def colon_mac_groups startswith_def)
     (simp add: colon_mac_line_def hex_lower_def eval_nat_numeral)

subsection \<open>C9: the end of the loop and the sleep\<close>

text \<open>
  C9, as the code has it: the loop returns, with status 0, exactly when some number of
  passes ends with an empty queue; and if the queue was not empty at the start, the last
  operation before the return is the sleep of 15 seconds: every pass is followed by the
  sleep, the pass that empties the queue too.
\<close>

theorem loop_returns_when_empty_and_sleeps_after_every_pass:
  "(while_todo net h s = Some (Return rc s') \<longleftrightarrow>
      rc = 0 \<and> todo s' = [] \<and> (\<exists>n. passes n net h s = Continue s')) \<and>
   (while_todo net h s = Some (Return rc s') \<and> todo s \<noteq> [] \<longrightarrow>
      (\<exists>tr. trace s' = tr @ [Sleep 15]))"
proof -
  have fwd: "rc = 0 \<and> todo s' = [] \<and> (\<exists>n. passes n net h s = Continue s')"
    if "while_todo net h s = Some (Return rc s')"
    using while_todo_passes [OF that] by (auto simp: ended_def)
  have bwd: "while_todo net h s = Some (Return rc s')"
    if "rc = 0 \<and> todo s' = [] \<and> (\<exists>n. passes n net h s = Continue s')"
    using that passes_while_todo_return by blast
  have slp: "\<exists>tr. trace s' = tr @ [Sleep 15]"
    if "while_todo net h s = Some (Return rc s')" and "todo s \<noteq> []"
    using fwd [OF that(1)] passes_sleep_last that(2) by blast
  show ?thesis using fwd bwd slp by blast
qed

theorem loop_returns_when_empty_and_sleeps_after_every_pass_witness:
  "\<exists>n. passes n (lan [] head_ok get_ok) kitchen_names (kitchen_queued kitchen_done) =
     Continue \<lparr>todo = [], fs = kitchen_done,
               trace = [Exists kitchen_zip, Remove kitchen_ip AlreadyDone, Sleep 15]\<rparr>"
proof -
  have run: "while_todo (lan [] head_ok get_ok) kitchen_names (kitchen_queued kitchen_done) =
     Some (Return 0 \<lparr>todo = [], fs = kitchen_done,
               trace = [Exists kitchen_zip, Remove kitchen_ip AlreadyDone, Sleep 15]\<rparr>)"
    by (simp add: while_todo.simps for_ip_in_todo.simps example_defs loop_defs more_defs)
  show ?thesis
    using loop_returns_when_empty_and_sleeps_after_every_pass
      [of "lan [] head_ok get_ok" kitchen_names "kitchen_queued kitchen_done" 0
          "\<lparr>todo = [], fs = kitchen_done,
               trace = [Exists kitchen_zip, Remove kitchen_ip AlreadyDone, Sleep 15]\<rparr>"] run
    by blast
qed

text \<open>
  C9 as it is written fails: the only pass of this run empties the queue and the sleep
  follows it.
\<close>

theorem sleep_after_last_pass:
  "main (lan [kitchen_line] head_ok get_ok) leases_uri kitchen_done =
     Some (Return 0
            \<lparr>todo = [], fs = kitchen_done,
             trace = [GetLeases leases_uri, Exists kitchen_zip, Remove kitchen_ip AlreadyDone, Sleep 15]\<rparr>)"
  by (simp add: main_def get_ips_from_leases_live_def kitchen_groups startswith_def
        while_todo.simps for_ip_in_todo.simps example_defs loop_defs)

subsection \<open>C10: a lease feed that is not fetched\<close>

text \<open>
  C10: if the GET of the lease feed is answered with a response that is not \<open>ok\<close>, the
  parser returns the empty list, and the program returns 0 with the archives as they
  were, having performed no operation but that GET.
\<close>

theorem failed_feed_request_ends_run:
  assumes "requests_get net 0 uri = Inr req" and "\<not> ok req"
  shows "get_ips_from_leases_live net uri = Inr [] \<and>
         main net uri disk = Some (Return 0 \<lparr>todo = [], fs = disk, trace = [GetLeases uri]\<rparr>)"
  using assms by (simp add: get_ips_from_leases_live_def main_def while_todo.simps)

theorem failed_feed_request_ends_run_witness:
  "main (feed_only False [kitchen_line]) leases_uri Map.empty =
     Some (Return 0 \<lparr>todo = [], fs = Map.empty, trace = [GetLeases leases_uri]\<rparr>)"
proof -
  have h1: "requests_get (feed_only False [kitchen_line]) 0 leases_uri = Inr (feed False [kitchen_line])"
    by (simp add: feed_only_def)
  have h2: "\<not> ok (feed False [kitchen_line])" by (simp add: feed_def)
  show ?thesis
    using failed_feed_request_ends_run [OF h1 h2, of Map.empty] by simp
qed

end
